theory Spec2Isabelle
  imports Complex_Main
begin

section \<open>Variant calls (Variant.hh)\<close>

text \<open>
  The compile-time capacities of \<^verbatim>\<open>Variant.hh\<close>: \<^verbatim>\<open>#define MAX_GT 2\<close> and
  \<^verbatim>\<open>#define MAX_FILTER 20\<close>.
\<close>

definition MAX_GT :: nat where
  "MAX_GT = 2"

definition MAX_FILTER :: nat where
  "MAX_FILTER = 20"

text \<open>\<^verbatim>\<open>enum gttype\<close>, in the order of the source.\<close>

datatype gttype = gt_homref | gt_haploid | gt_het | gt_homalt | gt_hetalt | gt_unknown

text \<open>
  \<^verbatim>\<open>struct Call\<close>. The C arrays \<^verbatim>\<open>int gt[MAX_GT]\<close>, \<^verbatim>\<open>int ad[MAX_GT]\<close> and
  \<^verbatim>\<open>std::string filter[MAX_FILTER]\<close> are lists (their fixed sizes are the predicate
  \<open>call_arrays\<close> below); the \<^verbatim>\<open>int\<close> fields are integers, since the code of this file
  only compares them and never computes with them; the \<^verbatim>\<open>size_t\<close> counters are naturals
  (the only arithmetic on them is \<^verbatim>\<open>++i\<close> under \<^verbatim>\<open>i < ngt\<close>, which cannot wrap); the
  two \<^verbatim>\<open>float\<close> fields are reals, and no function below reads them.
\<close>

record Call =
  gt :: "int list"
  ad_ref :: int
  ad_other :: int
  ad :: "int list"
  ngt :: nat
  phased :: bool
  filter_arr :: "string list"
  nfilter :: nat
  gq :: real
  dp :: int
  qual :: real

text \<open>The constructor \<^verbatim>\<open>Call()\<close>.\<close>

definition Call_init :: Call where
  "Call_init =
     \<lparr> gt = replicate MAX_GT (- 1), ad_ref = - 1, ad_other = - 1,
       ad = replicate MAX_GT (- 1), ngt = 0, phased = False,
       filter_arr = replicate MAX_FILTER [], nfilter = 0, gq = 0, dp = - 1, qual = 0 \<rparr>"

text \<open>The sizes of the three embedded arrays, which the C++ type fixes.\<close>

definition call_arrays :: "Call \<Rightarrow> bool" where
  "call_arrays c \<longleftrightarrow>
     length (gt c) = MAX_GT \<and> length (ad c) = MAX_GT \<and> length (filter_arr c) = MAX_FILTER"

text \<open>
  A read \<^verbatim>\<open>gt[i]\<close> at an index that the loop counter supplies. Beyond the array the C++
  behaviour is undefined; the model returns \<open>None\<close> there.
\<close>

definition gt_at :: "Call \<Rightarrow> nat \<Rightarrow> int option" where
  "gt_at c i = (if i < length (gt c) then Some (gt c ! i) else None)"

text \<open>
  \<^verbatim>\<open>Call::isNocall\<close>: the loop \<^verbatim>\<open>for (size_t i = 0; i < ngt; ++i)\<close> from counter \<open>i\<close> on,
  with its early \<^verbatim>\<open>return false\<close> and the final \<^verbatim>\<open>return true\<close>.
\<close>

function isNocall_from :: "Call \<Rightarrow> nat \<Rightarrow> bool option" where
  "isNocall_from c i =
     (if i < ngt c then
        (case gt_at c i of
           None \<Rightarrow> None
         | Some g \<Rightarrow> if g \<ge> 0 then Some False else isNocall_from c (i + 1))
      else Some True)"
  by pat_completeness auto
termination
  by (relation "measure (\<lambda>(c, i). ngt c - i)") auto

declare isNocall_from.simps [simp del]

definition isNocall :: "Call \<Rightarrow> bool option" where
  "isNocall c = isNocall_from c 0"

text \<open>
  \<^verbatim>\<open>Call::isHomref\<close>: the same loop with the test \<^verbatim>\<open>gt[i] != 0\<close>, ending in
  \<^verbatim>\<open>return ngt > 0\<close>.
\<close>

function isHomref_from :: "Call \<Rightarrow> nat \<Rightarrow> bool option" where
  "isHomref_from c i =
     (if i < ngt c then
        (case gt_at c i of
           None \<Rightarrow> None
         | Some g \<Rightarrow> if g \<noteq> 0 then Some False else isHomref_from c (i + 1))
      else Some (ngt c > 0))"
  by pat_completeness auto
termination
  by (relation "measure (\<lambda>(c, i). ngt c - i)") auto

declare isHomref_from.simps [simp del]

definition isHomref :: "Call \<Rightarrow> bool option" where
  "isHomref c = isHomref_from c 0"

text \<open>
  \<^verbatim>\<open>Call::isHet\<close>, \<^verbatim>\<open>Call::isHomalt\<close> and \<^verbatim>\<open>Call::isHemi\<close> read the array at the constant
  indices 0 and 1 only, which are inside \<^verbatim>\<open>int gt[MAX_GT]\<close> whatever \<^verbatim>\<open>ngt\<close> is.
\<close>

definition isHet :: "Call \<Rightarrow> bool" where
  "isHet c \<longleftrightarrow>
     ngt c = 2 \<and> ((gt c ! 0 = 0 \<and> gt c ! 1 > 0) \<or> (gt c ! 0 > 0 \<and> gt c ! 1 = 0))"

definition isHomalt :: "Call \<Rightarrow> bool" where
  "isHomalt c \<longleftrightarrow> ngt c = 2 \<and> gt c ! 0 = gt c ! 1 \<and> gt c ! 1 > 0"

definition isHemi :: "Call \<Rightarrow> bool" where
  "isHemi c \<longleftrightarrow> ngt c = 1"

section \<open>Variant blocks (Variant.hh)\<close>

text \<open>
  Modelled from the spec: the allele edit \<^verbatim>\<open>RefVar\<close>, whose header \<^verbatim>\<open>RefVar.hh\<close> is not
  among the sources. The spec calls it a replacement of a sub-span of the reference
  sequence; the model gives it the half-open span \<open>[rv_start, rv_end)\<close> and the replacement
  text.
\<close>

record RefVar =
  rv_start :: int
  rv_end :: int
  rv_alt :: string

text \<open>
  \<^verbatim>\<open>struct Variants\<close>. The \<^verbatim>\<open>int64_t\<close> fields are integers: no function of the header
  computes with them.
\<close>

record Variants =
  chr :: string
  variation :: "RefVar list"
  calls :: "Call list"
  pos :: int
  len :: int
  info :: string
  ambiguous_alleles :: "int list list"

text \<open>
  \<^verbatim>\<open>Variants::anyHomref\<close>: the range-for over \<^verbatim>\<open>calls\<close> with its early \<^verbatim>\<open>return true\<close>. An
  undefined \<^verbatim>\<open>isHomref\<close> makes the whole call undefined.
\<close>

fun anyHomref_loop :: "Call list \<Rightarrow> bool option" where
  "anyHomref_loop [] = Some False"
| "anyHomref_loop (c # cs) =
     (case isHomref c of
        None \<Rightarrow> None
      | Some b \<Rightarrow> if b then Some True else anyHomref_loop cs)"

definition anyHomref :: "Variants \<Rightarrow> bool option" where
  "anyHomref v = anyHomref_loop (calls v)"

text \<open>
  \<^verbatim>\<open>Variants::allHomref\<close>: the loop returns false at the first call that is not hom-ref
  (\<open>Some False\<close> below); when it runs to its end (\<open>Some True\<close>) the function returns
  \<^verbatim>\<open>calls.size() > 0\<close>.
\<close>

fun allHomref_loop :: "Call list \<Rightarrow> bool option" where
  "allHomref_loop [] = Some True"
| "allHomref_loop (c # cs) =
     (case isHomref c of
        None \<Rightarrow> None
      | Some b \<Rightarrow> if \<not> b then Some False else allHomref_loop cs)"

definition allHomref :: "Variants \<Rightarrow> bool option" where
  "allHomref v =
     (case allHomref_loop (calls v) of
        None \<Rightarrow> None
      | Some b \<Rightarrow> if b then Some (length (calls v) > 0) else Some False)"

text \<open>\<^verbatim>\<open>Variants::anyAmbiguous\<close>: the range-for over \<^verbatim>\<open>ambiguous_alleles\<close>.\<close>

fun anyAmbiguous_loop :: "int list list \<Rightarrow> bool" where
  "anyAmbiguous_loop [] = False"
| "anyAmbiguous_loop (c # cs) = (if c \<noteq> [] then True else anyAmbiguous_loop cs)"

definition anyAmbiguous :: "Variants \<Rightarrow> bool" where
  "anyAmbiguous v = anyAmbiguous_loop (ambiguous_alleles v)"

text \<open>\<^verbatim>\<open>enum class VariantBufferMode\<close>.\<close>

datatype VariantBufferMode = buffer_count | buffer_block | buffer_all | buffer_endpos

section \<open>Operations declared in Variant.hh whose bodies are elsewhere\<close>

subsection \<open>Genotype classification\<close>

text \<open>
  Modelled from the spec: \<^verbatim>\<open>getGTType\<close>, declared \<^verbatim>\<open>extern\<close> in \<^verbatim>\<open>Variant.hh\<close>; its body is
  not among the sources. The cases are those of the spec's \<open>classify\<close>, in its order; where
  the spec names no category (an allele index below 0 among the active ones) the model
  returns \<open>None\<close>.
\<close>

definition getGTType :: "Call \<Rightarrow> gttype option" where
  "getGTType c =
     (if ngt c = 0 then Some gt_unknown
      else if list_all (\<lambda>g. g = 0) (take (ngt c) (gt c)) then Some gt_homref
      else if ngt c = 1 \<and> gt c ! 0 > 0 then Some gt_haploid
      else if ngt c = 2 \<and> ((gt c ! 0 = 0 \<and> gt c ! 1 > 0) \<or> (gt c ! 1 = 0 \<and> gt c ! 0 > 0))
        then Some gt_het
      else if ngt c = 2 \<and> gt c ! 0 = gt c ! 1 \<and> gt c ! 0 > 0 then Some gt_homalt
      else if ngt c = 2 \<and> gt c ! 0 > 0 \<and> gt c ! 1 > 0 \<and> gt c ! 0 \<noteq> gt c ! 1
        then Some gt_hetalt
      else None)"

subsection \<open>The shared annotation string\<close>

text \<open>
  Modelled from the spec: the token format of the annotation string and
  \<^verbatim>\<open>setVariantInfo\<close>, which \<^verbatim>\<open>Variant.hh\<close> only declares. The spec says that the string
  holds delimited \<open>key=value\<close> tokens and names no delimiter; the header's comment speaks
  of INFO fields, so the model separates tokens by a semicolon. The empty string holds no
  token.
\<close>

definition info_delim :: char where
  "info_delim = CHR '';''"

fun split_on :: "char \<Rightarrow> string \<Rightarrow> string list" where
  "split_on d [] = [[]]"
| "split_on d (x # xs) =
     (if x = d then [] # split_on d xs
      else (case split_on d xs of
              [] \<Rightarrow> [[x]]
            | t # ts \<Rightarrow> (x # t) # ts))"

definition info_tokens :: "string \<Rightarrow> string list" where
  "info_tokens s = (if s = [] then [] else split_on info_delim s)"

fun join_tokens :: "string list \<Rightarrow> string" where
  "join_tokens [] = []"
| "join_tokens [t] = t"
| "join_tokens (t # u # ts) = t @ info_delim # join_tokens (u # ts)"

text \<open>A token belongs to a key when it starts with the key followed by \<open>=\<close>.\<close>

definition is_info_for :: "string \<Rightarrow> string \<Rightarrow> bool" where
  "is_info_for name t \<longleftrightarrow> take (length name + 1) t = name @ ''=''"

text \<open>
  Modelled from the spec: \<^verbatim>\<open>setVariantInfo(v, name, value)\<close> finds the tokens of the key and
  replaces them by one token \<open>name=value\<close>; an empty value removes the key. The other
  tokens keep their order.
\<close>

definition setVariantInfo :: "Variants \<Rightarrow> string \<Rightarrow> string \<Rightarrow> Variants" where
  "setVariantInfo v name val =
     (let others = filter (\<lambda>t. \<not> is_info_for name t) (info_tokens (info v));
          toks = (if val = [] then others else others @ [name @ ''='' @ val])
      in v\<lparr>info := join_tokens toks\<rparr>)"

subsection \<open>Block assembly\<close>

text \<open>
  Modelled from the spec: \<^verbatim>\<open>add_variant(sample, chr, rv, het)\<close>, declared in
  \<^verbatim>\<open>AbstractVariantProcessingStep\<close> with its body elsewhere, as an operation on the block
  under assembly. It records the allele edit, whose allele index is its place in
  \<^verbatim>\<open>variation\<close> counted from 1 (0 is the reference), and extends \<open>[pos, pos + len)\<close> to cover
  the edit's span. A sample that already holds \<open>MAX_GT\<close> alleles gets the index appended to
  its ambiguous-allele list and keeps its genotype array; otherwise the index goes into
  the next free genotype slot. The spec gives no effect of the chromosome name or of the
  \<open>het\<close> flag on the block, so the model takes both and leaves them unused, and it is
  undefined (\<open>None\<close>) for a sample the block does not track.
\<close>

definition add_variant ::
  "Variants \<Rightarrow> int \<Rightarrow> string \<Rightarrow> RefVar \<Rightarrow> bool \<Rightarrow> Variants option" where
  "add_variant v sample chrom rv het =
     (if 0 \<le> sample \<and> nat sample < length (calls v)
         \<and> nat sample < length (ambiguous_alleles v) then
        (let s = nat sample;
             idx = int (length (variation v)) + 1;
             c = calls v ! s;
             lo = min (pos v) (rv_start rv);
             hi = max (pos v + len v) (rv_end rv);
             v1 = v\<lparr>variation := variation v @ [rv], pos := lo, len := hi - lo\<rparr>
         in if ngt c < MAX_GT then
              Some (v1\<lparr>calls := (calls v)[s := c\<lparr>gt := (gt c)[ngt c := idx], ngt := ngt c + 1\<rparr>]\<rparr>)
            else
              Some (v1\<lparr>ambiguous_alleles :=
                (ambiguous_alleles v)[s := ambiguous_alleles v ! s @ [idx]]\<rparr>))
      else None)"

subsection \<open>The block-overlap buffer policy\<close>

text \<open>
  Modelled from the spec: the driver \<^verbatim>\<open>add(source, bt, param)\<close> for
  \<^verbatim>\<open>bt = buffer_block\<close>; \<^verbatim>\<open>Variant.hh\<close> declares it and says that its implementation is in
  \<^verbatim>\<open>VariantProcessor.cpp\<close>, which is not among the sources. The source is the list of the
  blocks still to come. The state is the chromosome and the end of the block seen last,
  \<open>None\<close> before the first one; the end of a block is its last base \<open>pos + len - 1\<close>, which
  is what makes edits at 100 and 140 lie 40 apart in the spec's example. Before each
  ingest the driver looks at the next candidate: when its start is \<open>param\<close> bases or more
  past the last end, or it is on another chromosome (the boundary the spec's design notes
  take as the default), the accumulation is complete and the candidate stays in the
  source; otherwise the candidate is passed to the stage's \<^verbatim>\<open>add(Variants)\<close>. The result is
  the list of the blocks passed to the stage, in order, and the rest of the source.
\<close>

definition block_end :: "Variants \<Rightarrow> int" where
  "block_end v = pos v + len v - 1"

definition block_complete :: "int \<Rightarrow> (string \<times> int) option \<Rightarrow> Variants \<Rightarrow> bool" where
  "block_complete n st v =
     (case st of
        None \<Rightarrow> False
      | Some (c, e) \<Rightarrow> chr v \<noteq> c \<or> pos v - e \<ge> n)"

fun add_buffer_block ::
  "int \<Rightarrow> (string \<times> int) option \<Rightarrow> Variants list \<Rightarrow> Variants list \<times> Variants list" where
  "add_buffer_block n st [] = ([], [])"
| "add_buffer_block n st (v # src) =
     (if block_complete n st v then ([], v # src)
      else (case add_buffer_block n (Some (chr v, block_end v)) src of
              (acc, rest) \<Rightarrow> (v # acc, rest)))"

text \<open>
  The driver's result \<^verbatim>\<open>bool\<close> says whether a block was produced; with it come the
  accumulation handed to the stage and the source that is left.
\<close>

definition add_source ::
  "int \<Rightarrow> Variants list \<Rightarrow> bool \<times> Variants list \<times> Variants list" where
  "add_source n src =
     (case add_buffer_block n None src of (acc, rest) \<Rightarrow> (acc \<noteq> [], acc, rest))"

text \<open>
  The blocks of the spec's examples: one single-base edit at position \<open>p\<close> on
  chromosome 1.
\<close>

definition snv_block :: "int \<Rightarrow> Variants" where
  "snv_block p =
     \<lparr>chr = ''1'', variation = [\<lparr>rv_start = p, rv_end = p + 1, rv_alt = ''A''\<rparr>],
       calls = [], pos = p, len = 1, info = [], ambiguous_alleles = []\<rparr>"

text \<open>
  A block with one edit that replaces the \<open>l\<close> bases from position \<open>p\<close> on chromosome \<open>c\<close>.
\<close>

definition span_block :: "string \<Rightarrow> int \<Rightarrow> int \<Rightarrow> Variants" where
  "span_block c p l =
     \<lparr>chr = c, variation = [\<lparr>rv_start = p, rv_end = p + l, rv_alt = ''A''\<rparr>],
       calls = [], pos = p, len = l, info = [], ambiguous_alleles = []\<rparr>"

section \<open>Properties of the call predicates\<close>

lemma all_less_2: "(\<forall>i<2::nat. P i) \<longleftrightarrow> P 0 \<and> P 1"
  by (auto simp: less_2_cases_iff)

lemma ex_less_2: "(\<exists>i<2::nat. P i) \<longleftrightarrow> P 0 \<or> P 1"
  by (auto simp: less_2_cases_iff)

lemma isNocall_from_eq:
  assumes "ngt c \<le> length (gt c)"
  shows "isNocall_from c i = Some (\<forall>j. i \<le> j \<and> j < ngt c \<longrightarrow> gt c ! j < 0)"
  using assms
proof (induction c i rule: isNocall_from.induct)
  case (1 c i)
  show ?case
  proof (cases "i < ngt c")
    case False
    then show ?thesis
      by (simp add: isNocall_from.simps [of c i])
  next
    case True
    with "1.prems" have rd: "gt_at c i = Some (gt c ! i)"
      by (simp add: gt_at_def)
    show ?thesis
    proof (cases "gt c ! i \<ge> 0")
      case True
      with \<open>i < ngt c\<close> rd show ?thesis
        by (auto simp: isNocall_from.simps [of c i])
    next
      case False
      with "1.IH" [OF \<open>i < ngt c\<close> rd] "1.prems"
      have "isNocall_from c (i + 1) = Some (\<forall>j. i + 1 \<le> j \<and> j < ngt c \<longrightarrow> gt c ! j < 0)"
        by simp
      moreover have "(\<forall>j. i + 1 \<le> j \<and> j < ngt c \<longrightarrow> gt c ! j < 0)
          \<longleftrightarrow> (\<forall>j. i \<le> j \<and> j < ngt c \<longrightarrow> gt c ! j < 0)"
      proof -
        have "\<And>j. i \<le> j \<longleftrightarrow> j = i \<or> i + 1 \<le> j"
          by auto
        with False show ?thesis
          by auto
      qed
      ultimately show ?thesis
        using \<open>i < ngt c\<close> rd False by (simp add: isNocall_from.simps [of c i])
    qed
  qed
qed

text \<open>
  C1. On every call whose genotype length is within the array (\<open>ngt \<le> MAX_GT\<close>, the
  invariant of the data model), \<open>isNocall\<close> returns true exactly when every active allele
  index \<open>gt[i]\<close>, \<open>i < ngt\<close>, is negative; with \<open>ngt = 0\<close> it returns true on any call.
\<close>

theorem isNocall_iff:
  "(call_arrays c \<and> ngt c \<le> MAX_GT \<longrightarrow> isNocall c = Some (\<forall>i<ngt c. gt c ! i < 0))
   \<and> (ngt c = 0 \<longrightarrow> isNocall c = Some True)"
proof (intro conjI impI)
  assume "call_arrays c \<and> ngt c \<le> MAX_GT"
  then have "ngt c \<le> length (gt c)"
    by (simp add: call_arrays_def)
  then show "isNocall c = Some (\<forall>i<ngt c. gt c ! i < 0)"
    by (simp add: isNocall_def isNocall_from_eq)
next
  assume "ngt c = 0"
  then show "isNocall c = Some True"
    by (simp add: isNocall_def isNocall_from.simps [of c 0])
qed

theorem isNocall_iff_witness:
  "call_arrays (Call_init\<lparr>gt := [- 1, 0], ngt := 1\<rparr>)
   \<and> ngt (Call_init\<lparr>gt := [- 1, 0], ngt := 1\<rparr>) \<le> MAX_GT
   \<and> isNocall (Call_init\<lparr>gt := [- 1, 0], ngt := 1\<rparr>) = Some True
   \<and> isNocall (Call_init\<lparr>gt := [- 1, 0], ngt := 2\<rparr>) = Some False
   \<and> ngt Call_init = 0 \<and> isNocall Call_init = Some True"
  using isNocall_iff [of "Call_init\<lparr>gt := [- 1, 0], ngt := 1\<rparr>"]
    isNocall_iff [of "Call_init\<lparr>gt := [- 1, 0], ngt := 2\<rparr>"] isNocall_iff [of Call_init]
  by (simp add: call_arrays_def Call_init_def MAX_GT_def MAX_FILTER_def all_less_2)

lemma isHomref_from_eq:
  assumes "ngt c \<le> length (gt c)"
  shows "isHomref_from c i = Some (0 < ngt c \<and> (\<forall>j. i \<le> j \<and> j < ngt c \<longrightarrow> gt c ! j = 0))"
  using assms
proof (induction c i rule: isHomref_from.induct)
  case (1 c i)
  show ?case
  proof (cases "i < ngt c")
    case False
    then show ?thesis
      by (simp add: isHomref_from.simps [of c i])
  next
    case True
    with "1.prems" have rd: "gt_at c i = Some (gt c ! i)"
      by (simp add: gt_at_def)
    show ?thesis
    proof (cases "gt c ! i = 0")
      case False
      with True rd show ?thesis
        by (auto simp: isHomref_from.simps [of c i])
    next
      case zero: True
      then have "\<not> gt c ! i \<noteq> 0"
        by simp
      from "1.IH" [OF True rd this] "1.prems"
      have "isHomref_from c (i + 1)
          = Some (0 < ngt c \<and> (\<forall>j. i + 1 \<le> j \<and> j < ngt c \<longrightarrow> gt c ! j = 0))"
        by simp
      moreover have "(\<forall>j. i + 1 \<le> j \<and> j < ngt c \<longrightarrow> gt c ! j = 0)
          \<longleftrightarrow> (\<forall>j. i \<le> j \<and> j < ngt c \<longrightarrow> gt c ! j = 0)"
      proof -
        have "\<And>j. i \<le> j \<longleftrightarrow> j = i \<or> i + 1 \<le> j"
          by auto
        with zero show ?thesis
          by auto
      qed
      ultimately show ?thesis
        using True rd zero by (simp add: isHomref_from.simps [of c i])
    qed
  qed
qed

text \<open>
  C3. On every call whose genotype length is within the array, \<open>isHomref\<close> returns true
  exactly when \<open>ngt > 0\<close> and every active allele index equals 0; a call with the alleles
  \<open>[0, 0]\<close> satisfies it.
\<close>

theorem isHomref_iff:
  "(call_arrays c \<and> ngt c \<le> MAX_GT
      \<longrightarrow> isHomref c = Some (0 < ngt c \<and> (\<forall>i<ngt c. gt c ! i = 0)))
   \<and> (ngt c = 2 \<and> gt c = [0, 0] \<longrightarrow> isHomref c = Some True)"
proof (intro conjI impI)
  assume "call_arrays c \<and> ngt c \<le> MAX_GT"
  then have "ngt c \<le> length (gt c)"
    by (simp add: call_arrays_def)
  then show "isHomref c = Some (0 < ngt c \<and> (\<forall>i<ngt c. gt c ! i = 0))"
    by (simp add: isHomref_def isHomref_from_eq)
next
  assume a: "ngt c = 2 \<and> gt c = [0, 0]"
  then have "ngt c \<le> length (gt c)"
    by simp
  then have "isHomref c = Some (0 < ngt c \<and> (\<forall>i<ngt c. gt c ! i = 0))"
    by (simp add: isHomref_def isHomref_from_eq)
  with a show "isHomref c = Some True"
    by (simp add: all_less_2)
qed

theorem isHomref_iff_witness:
  "call_arrays (Call_init\<lparr>gt := [0, 0], ngt := 2\<rparr>)
   \<and> ngt (Call_init\<lparr>gt := [0, 0], ngt := 2\<rparr>) \<le> MAX_GT
   \<and> isHomref (Call_init\<lparr>gt := [0, 0], ngt := 2\<rparr>) = Some True
   \<and> isHomref (Call_init\<lparr>gt := [0, 1], ngt := 2\<rparr>) = Some False
   \<and> isHomref Call_init = Some False"
  using isHomref_iff [of "Call_init\<lparr>gt := [0, 0], ngt := 2\<rparr>"]
    isHomref_iff [of "Call_init\<lparr>gt := [0, 1], ngt := 2\<rparr>"] isHomref_iff [of Call_init]
  by (simp add: call_arrays_def Call_init_def MAX_GT_def MAX_FILTER_def all_less_2 ex_less_2)

text \<open>
  C4. \<open>isHet\<close> is true exactly when \<open>ngt = 2\<close> and one of the two allele indices is 0 while
  the other one is greater than 0; a call with the alleles \<open>[0, 3]\<close> satisfies it.
\<close>

theorem isHet_iff:
  assumes "call_arrays c"
  shows "(isHet c \<longleftrightarrow> ngt c = 2 \<and> (\<exists>i<2. gt c ! i = 0 \<and> gt c ! (1 - i) > 0))
    \<and> (ngt c = 2 \<and> gt c = [0, 3] \<longrightarrow> isHet c)"
  by (auto simp: isHet_def ex_less_2)

theorem isHet_iff_witness:
  "call_arrays (Call_init\<lparr>gt := [0, 3], ngt := 2\<rparr>)
   \<and> isHet (Call_init\<lparr>gt := [0, 3], ngt := 2\<rparr>)"
  using isHet_iff [of "Call_init\<lparr>gt := [0, 3], ngt := 2\<rparr>"]
  by (simp add: call_arrays_def Call_init_def MAX_GT_def MAX_FILTER_def all_less_2 ex_less_2)

text \<open>
  C5. \<open>isHomalt\<close> is true exactly when \<open>ngt = 2\<close> and the two allele indices are equal and
  greater than 0; a call with the alleles \<open>[2, 2]\<close> satisfies it.
\<close>

theorem isHomalt_iff:
  assumes "call_arrays c"
  shows "(isHomalt c \<longleftrightarrow>
        ngt c = 2 \<and> (\<forall>i<2. gt c ! i > 0) \<and> (\<forall>i<2. \<forall>j<2. gt c ! i = gt c ! j))
    \<and> (ngt c = 2 \<and> gt c = [2, 2] \<longrightarrow> isHomalt c)"
  by (auto simp: isHomalt_def all_less_2)

theorem isHomalt_iff_witness:
  "call_arrays (Call_init\<lparr>gt := [2, 2], ngt := 2\<rparr>)
   \<and> isHomalt (Call_init\<lparr>gt := [2, 2], ngt := 2\<rparr>)"
  using isHomalt_iff [of "Call_init\<lparr>gt := [2, 2], ngt := 2\<rparr>"]
  by (simp add: call_arrays_def Call_init_def MAX_GT_def MAX_FILTER_def all_less_2 ex_less_2)

lemma isNocall_empty: "ngt c = 0 \<Longrightarrow> isNocall c = Some True"
  by (simp add: isNocall_def isNocall_from.simps [of c 0])

lemma isHomref_empty: "ngt c = 0 \<Longrightarrow> isHomref c = Some False"
  by (simp add: isHomref_def isHomref_from.simps [of c 0])

lemma isNocall_single:
  "ngt c = 1 \<Longrightarrow> gt c \<noteq> [] \<Longrightarrow> isNocall c = Some (gt c ! 0 < 0)"
  by (simp add: isNocall_def isNocall_from.simps [of c 0] isNocall_from.simps [of c "Suc 0"]
      gt_at_def)

lemma isHomref_single:
  "ngt c = 1 \<Longrightarrow> gt c \<noteq> [] \<Longrightarrow> isHomref c = Some (gt c ! 0 = 0)"
  by (simp add: isHomref_def isHomref_from.simps [of c 0] isHomref_from.simps [of c "Suc 0"]
      gt_at_def)

text \<open>
  Beyond the array the loops have no defined result: a call that claims three active
  alleles runs off the two-element array as soon as the first two reads do not decide.
\<close>

lemma isNocall_beyond_array: "isNocall (Call_init\<lparr>ngt := 3\<rparr>) = None"
  by (simp add: isNocall_def isNocall_from.simps [of _ 0] isNocall_from.simps [of _ "Suc 0"]
      isNocall_from.simps [of _ "Suc (Suc 0)"] gt_at_def Call_init_def MAX_GT_def)

lemma isHomref_beyond_array: "isHomref (Call_init\<lparr>gt := [0, 0], ngt := 3\<rparr>) = None"
  by (simp add: isHomref_def isHomref_from.simps [of _ 0] isHomref_from.simps [of _ "Suc 0"]
      isHomref_from.simps [of _ "Suc (Suc 0)"] gt_at_def)

lemma call_arrays_gt_nonempty: "call_arrays c \<Longrightarrow> gt c \<noteq> []"
  by (auto simp: call_arrays_def MAX_GT_def)

text \<open>
  C6. The predicates are not mutually exclusive: a haploid call with the reference allele
  is both hom-ref and hemizygous, a haploid call with a missing allele is both no-call and
  hemizygous, and the call with no active allele is a no-call while none of the other four
  predicates holds.
\<close>

theorem predicates_not_exclusive:
  "(\<exists>c. call_arrays c \<and> ngt c = 1 \<and> gt c ! 0 = 0 \<and> isHomref c = Some True \<and> isHemi c)
   \<and> (\<exists>c. call_arrays c \<and> ngt c = 1 \<and> gt c ! 0 < 0 \<and> isNocall c = Some True \<and> isHemi c)
   \<and> (\<exists>c. call_arrays c \<and> ngt c = 0 \<and> isNocall c = Some True \<and> isHomref c = Some False
          \<and> \<not> isHet c \<and> \<not> isHomalt c \<and> \<not> isHemi c)"
proof (intro conjI)
  let ?a = "Call_init\<lparr>gt := [0, - 1], ngt := 1\<rparr>"
  have "call_arrays ?a"
    by (simp add: call_arrays_def Call_init_def MAX_GT_def MAX_FILTER_def)
  moreover have "isHomref ?a = Some True"
    by (simp add: isHomref_single)
  moreover have "isHemi ?a"
    by (simp add: isHemi_def)
  ultimately show "\<exists>c. call_arrays c \<and> ngt c = 1 \<and> gt c ! 0 = 0 \<and> isHomref c = Some True \<and> isHemi c"
    by (intro exI [of _ ?a]) simp
next
  let ?b = "Call_init\<lparr>ngt := 1\<rparr>"
  have "call_arrays ?b"
    by (simp add: call_arrays_def Call_init_def MAX_GT_def MAX_FILTER_def)
  moreover have "gt ?b ! 0 < 0" "gt ?b \<noteq> []"
    by (simp_all add: Call_init_def MAX_GT_def)
  moreover from this have "isNocall ?b = Some True"
    by (simp add: isNocall_single)
  moreover have "isHemi ?b"
    by (simp add: isHemi_def)
  ultimately show "\<exists>c. call_arrays c \<and> ngt c = 1 \<and> gt c ! 0 < 0 \<and> isNocall c = Some True \<and> isHemi c"
    by (intro exI [of _ ?b]) simp
next
  have "call_arrays Call_init"
    by (simp add: call_arrays_def Call_init_def MAX_GT_def MAX_FILTER_def)
  moreover have n: "ngt Call_init = 0"
    by (simp add: Call_init_def)
  moreover from n have "isNocall Call_init = Some True" "isHomref Call_init = Some False"
    by (simp_all add: isNocall_empty isHomref_empty)
  moreover from n have "\<not> isHet Call_init" "\<not> isHomalt Call_init" "\<not> isHemi Call_init"
    by (simp_all add: isHet_def isHomalt_def isHemi_def)
  ultimately show "\<exists>c. call_arrays c \<and> ngt c = 0 \<and> isNocall c = Some True
      \<and> isHomref c = Some False \<and> \<not> isHet c \<and> \<not> isHomalt c \<and> \<not> isHemi c"
    by (intro exI [of _ Call_init]) simp
qed

text \<open>
  The classification of the spec puts the call with no active allele into \<open>gt_unknown\<close>,
  and a haploid call is \<open>gt_haploid\<close> only with a positive allele index.
\<close>

lemma getGTType_empty: "ngt c = 0 \<Longrightarrow> getGTType c = Some gt_unknown"
  by (simp add: getGTType_def)

lemma getGTType_haploid_positive:
  "ngt c = 1 \<Longrightarrow> getGTType c = Some gt_haploid \<Longrightarrow> gt c ! 0 > 0"
  by (auto simp: getGTType_def split: if_splits)

text \<open>
  C9. A call with \<open>ngt = 1\<close> is hemizygous whatever its allele index is: with a missing
  allele it is a no-call as well, with the reference allele it is hom-ref as well.
\<close>

theorem isHemi_any_allele:
  assumes "call_arrays c" and "ngt c = 1"
  shows "isHemi c
    \<and> (gt c ! 0 < 0 \<longrightarrow> isNocall c = Some True)
    \<and> (gt c ! 0 = 0 \<longrightarrow> isHomref c = Some True)"
  using assms
  by (simp add: isHemi_def isNocall_single isHomref_single call_arrays_gt_nonempty)

theorem isHemi_any_allele_witness:
  "call_arrays (Call_init\<lparr>ngt := 1\<rparr>) \<and> ngt (Call_init\<lparr>ngt := 1\<rparr>) = 1
   \<and> gt (Call_init\<lparr>ngt := 1\<rparr>) ! 0 < 0
   \<and> isHemi (Call_init\<lparr>ngt := 1\<rparr>) \<and> isNocall (Call_init\<lparr>ngt := 1\<rparr>) = Some True
   \<and> isHemi (Call_init\<lparr>gt := [0, - 1], ngt := 1\<rparr>)
   \<and> isHomref (Call_init\<lparr>gt := [0, - 1], ngt := 1\<rparr>) = Some True"
  using isHemi_any_allele [of "Call_init\<lparr>ngt := 1\<rparr>"]
    isHemi_any_allele [of "Call_init\<lparr>gt := [0, - 1], ngt := 1\<rparr>"]
  by (simp add: call_arrays_def Call_init_def MAX_GT_def MAX_FILTER_def)

section \<open>Properties of the block predicates\<close>

lemma allHomref_loop_True:
  "allHomref_loop cs = Some True \<Longrightarrow> cs \<noteq> [] \<Longrightarrow> anyHomref_loop cs = Some True"
  by (cases cs) (auto split: option.splits if_splits)

text \<open>
  C10. On a block without calls \<open>allHomref\<close> and \<open>anyHomref\<close> both return false, and on
  every block \<open>allHomref\<close> implies \<open>anyHomref\<close>.
\<close>

theorem allHomref_imp_anyHomref:
  "(calls v = [] \<longrightarrow> allHomref v = Some False \<and> anyHomref v = Some False)
   \<and> (allHomref v = Some True \<longrightarrow> anyHomref v = Some True)"
proof (intro conjI impI)
  assume "calls v = []"
  then show "allHomref v = Some False" "anyHomref v = Some False"
    by (simp_all add: allHomref_def anyHomref_def)
next
  assume "allHomref v = Some True"
  then have "allHomref_loop (calls v) = Some True" "calls v \<noteq> []"
    by (auto simp: allHomref_def split: option.splits if_splits)
  then show "anyHomref v = Some True"
    by (simp add: anyHomref_def allHomref_loop_True)
qed

theorem allHomref_imp_anyHomref_witness:
  "allHomref \<lparr>chr = ''1'', variation = [], calls = [], pos = 0, len = 0, info = [],
      ambiguous_alleles = []\<rparr> = Some False
   \<and> anyHomref \<lparr>chr = ''1'', variation = [], calls = [], pos = 0, len = 0, info = [],
      ambiguous_alleles = []\<rparr> = Some False
   \<and> allHomref \<lparr>chr = ''1'', variation = [], calls = [Call_init\<lparr>gt := [0, 0], ngt := 2\<rparr>],
      pos = 0, len = 0, info = [], ambiguous_alleles = [[]]\<rparr> = Some True
   \<and> anyHomref \<lparr>chr = ''1'', variation = [], calls = [Call_init\<lparr>gt := [0, 0], ngt := 2\<rparr>],
      pos = 0, len = 0, info = [], ambiguous_alleles = [[]]\<rparr> = Some True"
proof -
  let ?e = "\<lparr>chr = ''1'', variation = [], calls = [], pos = 0, len = 0, info = [],
      ambiguous_alleles = []\<rparr>"
  let ?h = "\<lparr>chr = ''1'', variation = [], calls = [Call_init\<lparr>gt := [0, 0], ngt := 2\<rparr>],
      pos = 0, len = 0, info = [], ambiguous_alleles = [[]]\<rparr>"
  have "isHomref (Call_init\<lparr>gt := [0, 0], ngt := 2\<rparr>) = Some True"
    by (simp add: isHomref_def isHomref_from.simps [of _ 0] isHomref_from.simps [of _ "Suc 0"]
        isHomref_from.simps [of _ "Suc (Suc 0)"] gt_at_def)
  then have all: "allHomref ?h = Some True"
    by (simp add: allHomref_def)
  from allHomref_imp_anyHomref [of ?e] allHomref_imp_anyHomref [of ?h] all
  show ?thesis
    by simp
qed

lemma anyAmbiguous_loop_iff: "anyAmbiguous_loop ls \<longleftrightarrow> (\<exists>l\<in>set ls. l \<noteq> [])"
  by (induction ls) auto

text \<open>
  C8. \<open>anyAmbiguous\<close> is true exactly when the ambiguous-allele list of some sample is not
  empty. When \<open>add_variant\<close> records an allele edit for a tracked sample that already holds
  \<open>MAX_GT\<close> alleles, the block it returns satisfies \<open>anyAmbiguous\<close>, the list of that sample
  is not empty, the list of every other sample is the one it was (so an empty one stays
  empty), and the calls are untouched.
\<close>

theorem add_variant_ambiguous:
  "(anyAmbiguous v \<longleftrightarrow> (\<exists>l\<in>set (ambiguous_alleles v). l \<noteq> []))
   \<and> (0 \<le> sample \<and> nat sample < length (calls v)
        \<and> length (ambiguous_alleles v) = length (calls v)
        \<and> ngt (calls v ! nat sample) = MAX_GT
      \<longrightarrow> (\<exists>v'. add_variant v sample chrom rv het = Some v'
            \<and> anyAmbiguous v'
            \<and> ambiguous_alleles v' ! nat sample \<noteq> []
            \<and> length (ambiguous_alleles v') = length (ambiguous_alleles v)
            \<and> (\<forall>t<length (ambiguous_alleles v).
                  t \<noteq> nat sample \<longrightarrow> ambiguous_alleles v' ! t = ambiguous_alleles v ! t)
            \<and> calls v' = calls v))"
proof (intro conjI impI)
  show "anyAmbiguous v \<longleftrightarrow> (\<exists>l\<in>set (ambiguous_alleles v). l \<noteq> [])"
    by (simp add: anyAmbiguous_def anyAmbiguous_loop_iff)
next
  assume a: "0 \<le> sample \<and> nat sample < length (calls v)
        \<and> length (ambiguous_alleles v) = length (calls v)
        \<and> ngt (calls v ! nat sample) = MAX_GT"
  let ?s = "nat sample"
  let ?idx = "int (length (variation v)) + 1"
  let ?amb = "(ambiguous_alleles v)[?s := ambiguous_alleles v ! ?s @ [?idx]]"
  let ?v' = "v\<lparr>variation := variation v @ [rv],
      pos := min (pos v) (rv_start rv),
      len := max (pos v + len v) (rv_end rv) - min (pos v) (rv_start rv),
      ambiguous_alleles := ?amb\<rparr>"
  from a have eq: "add_variant v sample chrom rv het = Some ?v'"
    by (simp add: add_variant_def Let_def)
  from a have in_range: "?s < length ?amb"
    by simp
  then have "?amb ! ?s \<in> set ?amb"
    by (rule nth_mem)
  moreover from a have ne: "?amb ! ?s \<noteq> []"
    by simp
  ultimately have "anyAmbiguous ?v'"
    unfolding anyAmbiguous_def anyAmbiguous_loop_iff by auto
  with eq ne show "\<exists>v'. add_variant v sample chrom rv het = Some v'
            \<and> anyAmbiguous v'
            \<and> ambiguous_alleles v' ! nat sample \<noteq> []
            \<and> length (ambiguous_alleles v') = length (ambiguous_alleles v)
            \<and> (\<forall>t<length (ambiguous_alleles v).
                  t \<noteq> nat sample \<longrightarrow> ambiguous_alleles v' ! t = ambiguous_alleles v ! t)
            \<and> calls v' = calls v"
    by (intro exI [of _ ?v']) simp
qed

theorem add_variant_ambiguous_witness:
  "add_variant
     \<lparr>chr = ''1'', variation = [\<lparr>rv_start = 5, rv_end = 6, rv_alt = ''A''\<rparr>,
         \<lparr>rv_start = 5, rv_end = 6, rv_alt = ''C''\<rparr>],
       calls = [Call_init\<lparr>gt := [1, 2], ngt := 2\<rparr>, Call_init], pos = 5, len = 1, info = [],
       ambiguous_alleles = [[], []]\<rparr>
     0 ''1'' \<lparr>rv_start = 5, rv_end = 6, rv_alt = ''G''\<rparr> True
   = Some
     \<lparr>chr = ''1'', variation = [\<lparr>rv_start = 5, rv_end = 6, rv_alt = ''A''\<rparr>,
         \<lparr>rv_start = 5, rv_end = 6, rv_alt = ''C''\<rparr>, \<lparr>rv_start = 5, rv_end = 6, rv_alt = ''G''\<rparr>],
       calls = [Call_init\<lparr>gt := [1, 2], ngt := 2\<rparr>, Call_init], pos = 5, len = 1, info = [],
       ambiguous_alleles = [[3], []]\<rparr>
   \<and> anyAmbiguous
     \<lparr>chr = ''1'', variation = [\<lparr>rv_start = 5, rv_end = 6, rv_alt = ''A''\<rparr>,
         \<lparr>rv_start = 5, rv_end = 6, rv_alt = ''C''\<rparr>, \<lparr>rv_start = 5, rv_end = 6, rv_alt = ''G''\<rparr>],
       calls = [Call_init\<lparr>gt := [1, 2], ngt := 2\<rparr>, Call_init], pos = 5, len = 1, info = [],
       ambiguous_alleles = [[3], []]\<rparr>"
proof -
  let ?v = "\<lparr>chr = ''1'', variation = [\<lparr>rv_start = 5, rv_end = 6, rv_alt = ''A''\<rparr>,
         \<lparr>rv_start = 5, rv_end = 6, rv_alt = ''C''\<rparr>],
       calls = [Call_init\<lparr>gt := [1, 2], ngt := 2\<rparr>, Call_init], pos = 5, len = 1, info = [],
       ambiguous_alleles = [[], []]\<rparr>"
  let ?rv = "\<lparr>rv_start = 5, rv_end = 6, rv_alt = ''G''\<rparr>"
  have eq: "add_variant ?v 0 ''1'' ?rv True = Some
     \<lparr>chr = ''1'', variation = [\<lparr>rv_start = 5, rv_end = 6, rv_alt = ''A''\<rparr>,
         \<lparr>rv_start = 5, rv_end = 6, rv_alt = ''C''\<rparr>, \<lparr>rv_start = 5, rv_end = 6, rv_alt = ''G''\<rparr>],
       calls = [Call_init\<lparr>gt := [1, 2], ngt := 2\<rparr>, Call_init], pos = 5, len = 1, info = [],
       ambiguous_alleles = [[3], []]\<rparr>"
    by (simp add: add_variant_def MAX_GT_def)
  from add_variant_ambiguous [of ?v 0 "''1''" ?rv True] eq
  show ?thesis
    by (simp add: MAX_GT_def)
qed

section \<open>Properties of the annotation string\<close>

lemma split_on_not_Nil: "split_on d s \<noteq> []"
  by (induction s) (auto split: list.splits)

lemma split_on_free: "t \<in> set (split_on d s) \<Longrightarrow> d \<notin> set t"
proof (induction s arbitrary: t)
  case Nil
  then show ?case by simp
next
  case (Cons x xs)
  show ?case
  proof (cases "x = d")
    case True
    with Cons show ?thesis by auto
  next
    case False
    obtain u us where sp: "split_on d xs = u # us"
      using split_on_not_Nil [of d xs] by (cases "split_on d xs") auto
    with Cons.prems False have "t = x # u \<or> t \<in> set us"
      by simp
    then show ?thesis
    proof
      assume "t = x # u"
      moreover have "d \<notin> set u"
        using Cons.IH [of u] sp by simp
      ultimately show ?thesis
        using False by auto
    next
      assume "t \<in> set us"
      then show ?thesis
        using Cons.IH [of t] sp by simp
    qed
  qed
qed

lemma split_on_single: "d \<notin> set t \<Longrightarrow> split_on d t = [t]"
  by (induction t) auto

lemma split_on_append: "d \<notin> set t \<Longrightarrow> split_on d (t @ d # r) = t # split_on d r"
  by (induction t) auto

lemma split_join:
  "ts \<noteq> [] \<Longrightarrow> \<forall>t\<in>set ts. info_delim \<notin> set t
    \<Longrightarrow> split_on info_delim (join_tokens ts) = ts"
proof (induction ts rule: join_tokens.induct)
  case 1
  then show ?case by simp
next
  case (2 t)
  then show ?case by (simp add: split_on_single)
next
  case (3 t u ts)
  then show ?case by (simp add: split_on_append)
qed

lemma join_tokens_Nil_iff: "join_tokens ts = [] \<longleftrightarrow> ts = [] \<or> ts = [[]]"
  by (induction ts rule: join_tokens.induct) auto

lemma info_tokens_free: "t \<in> set (info_tokens s) \<Longrightarrow> info_delim \<notin> set t"
  by (auto simp: info_tokens_def dest: split_on_free split: if_splits)

lemma not_info_for_Nil: "\<not> is_info_for name []"
  by (simp add: is_info_for_def)

lemma is_info_for_own: "is_info_for name (name @ CHR ''='' # y)"
  by (simp add: is_info_for_def)

lemma filter_info_tokens_join:
  assumes "\<forall>t\<in>set ts. info_delim \<notin> set t"
  shows "filter (is_info_for name) (info_tokens (join_tokens ts)) = filter (is_info_for name) ts"
proof (cases "join_tokens ts = []")
  case True
  then have "ts = [] \<or> ts = [[]]"
    by (simp add: join_tokens_Nil_iff)
  with True show ?thesis
    by (auto simp: info_tokens_def not_info_for_Nil)
next
  case False
  then have "ts \<noteq> []"
    by auto
  with assms False show ?thesis
    by (simp add: info_tokens_def split_join)
qed

lemma setVariantInfo_tokens:
  assumes "y \<noteq> [] \<Longrightarrow> info_delim \<notin> set name \<and> info_delim \<notin> set y"
  shows "filter (is_info_for name) (info_tokens (info (setVariantInfo v name y)))
    = (if y = [] then [] else [name @ ''='' @ y])"
proof -
  let ?others = "filter (\<lambda>t. \<not> is_info_for name t) (info_tokens (info v))"
  let ?toks = "if y = [] then ?others else ?others @ [name @ ''='' @ y]"
  have d: "y \<noteq> [] \<Longrightarrow> info_delim \<notin> set (name @ ''='' @ y)"
    using assms by (simp add: info_delim_def)
  have "\<forall>t\<in>set ?others. info_delim \<notin> set t"
    by (auto dest: info_tokens_free)
  with d have free: "\<forall>t\<in>set ?toks. info_delim \<notin> set t"
    by auto
  have "info (setVariantInfo v name y) = join_tokens ?toks"
    by (simp add: setVariantInfo_def Let_def)
  then have "filter (is_info_for name) (info_tokens (info (setVariantInfo v name y)))
      = filter (is_info_for name) ?toks"
    using filter_info_tokens_join [OF free] by simp
  also have "\<dots> = (if y = [] then [] else [name @ ''='' @ y])"
    by (simp add: is_info_for_own)
  finally show ?thesis .
qed

text \<open>
  C7. For a key and a non-empty value that are free of the delimiter (they can stand in
  a token), \<open>setVariantInfo\<close> called with a value \<open>x\<close> and then with the value \<open>y\<close> leaves
  exactly one token of the key in the annotation, the token \<open>key=y\<close>, whatever the
  annotation held before; called with the empty value it leaves no token of the key, for
  every key and every annotation.
\<close>

theorem setVariantInfo_replace:
  "(info_delim \<notin> set name \<and> info_delim \<notin> set y \<and> y \<noteq> []
      \<longrightarrow> filter (is_info_for name)
            (info_tokens (info (setVariantInfo (setVariantInfo v name x) name y)))
          = [name @ ''='' @ y])
   \<and> filter (is_info_for name) (info_tokens (info (setVariantInfo v name []))) = []"
  using setVariantInfo_tokens [of y name "setVariantInfo v name x"]
    setVariantInfo_tokens [of "[]" name v]
  by simp

theorem setVariantInfo_replace_witness:
  "info_delim \<notin> set ''DP'' \<and> info_delim \<notin> set ''20'' \<and> ''20'' \<noteq> []
   \<and> filter (is_info_for ''DP'')
        (info_tokens (info (setVariantInfo (setVariantInfo
          \<lparr>chr = ''1'', variation = [], calls = [], pos = 0, len = 0,
            info = ''AC=2;DP=5;AN=4'', ambiguous_alleles = []\<rparr> ''DP'' ''10'') ''DP'' ''20'')))
      = [''DP=20'']
   \<and> info (setVariantInfo (setVariantInfo
          \<lparr>chr = ''1'', variation = [], calls = [], pos = 0, len = 0,
            info = ''AC=2;DP=5;AN=4'', ambiguous_alleles = []\<rparr> ''DP'' ''10'') ''DP'' ''20'')
      = ''AC=2;AN=4;DP=20''
   \<and> info (setVariantInfo
          \<lparr>chr = ''1'', variation = [], calls = [], pos = 0, len = 0,
            info = ''AC=2;DP=5;AN=4'', ambiguous_alleles = []\<rparr> ''DP'' [])
      = ''AC=2;AN=4''"
proof -
  let ?v = "\<lparr>chr = ''1'', variation = [], calls = [], pos = 0, len = 0,
            info = ''AC=2;DP=5;AN=4'', ambiguous_alleles = []\<rparr>"
  have h: "info_delim \<notin> set ''DP''" "info_delim \<notin> set ''20''" "''20'' \<noteq> []"
    by (simp_all add: info_delim_def)
  have a: "info (setVariantInfo (setVariantInfo ?v ''DP'' ''10'') ''DP'' ''20'')
      = ''AC=2;AN=4;DP=20''"
    by code_simp
  have b: "info (setVariantInfo ?v ''DP'' []) = ''AC=2;AN=4''"
    by code_simp
  from setVariantInfo_replace [of "''DP''" "''20''" ?v "''10''"] h a b
  show ?thesis
    by simp
qed

section \<open>Properties of the block-overlap policy\<close>

lemma add_buffer_block_append:
  "add_buffer_block n st src = (acc, rest) \<Longrightarrow> acc @ rest = src"
  by (induction src arbitrary: st acc rest) (auto split: if_splits prod.splits)

lemma add_buffer_block_first:
  "add_buffer_block n st src = (acc, rest) \<Longrightarrow> acc \<noteq> [] \<Longrightarrow> \<not> block_complete n st (hd acc)"
  by (cases src) (auto split: if_splits prod.splits)

lemma add_buffer_block_start:
  "add_buffer_block n None src = (acc, rest) \<Longrightarrow> src \<noteq> [] \<Longrightarrow> acc \<noteq> []"
  by (cases src) (auto simp: block_complete_def split: if_splits prod.splits)

lemma add_buffer_block_adjacent:
  "add_buffer_block n st src = (acc, rest) \<Longrightarrow> Suc i < length acc
    \<Longrightarrow> \<not> block_complete n (Some (chr (acc ! i), block_end (acc ! i))) (acc ! Suc i)"
proof (induction src arbitrary: st acc rest i)
  case Nil
  then show ?case by simp
next
  case (Cons v src)
  show ?case
  proof (cases "block_complete n st v")
    case True
    with Cons.prems show ?thesis by simp
  next
    case False
    obtain acc' rest' where rec: "add_buffer_block n (Some (chr v, block_end v)) src = (acc', rest')"
      by (cases "add_buffer_block n (Some (chr v, block_end v)) src") auto
    with False Cons.prems have acc: "acc = v # acc'"
      by simp
    show ?thesis
    proof (cases i)
      case 0
      with acc Cons.prems have ne: "acc' \<noteq> []"
        by auto
      from add_buffer_block_first [OF rec ne] ne acc 0 show ?thesis
        by (simp add: hd_conv_nth)
    next
      case (Suc j)
      with acc Cons.prems have "Suc j < length acc'"
        by simp
      from Cons.IH [OF rec this] acc Suc show ?thesis
        by simp
    qed
  qed
qed

lemma add_buffer_block_stop:
  "add_buffer_block n st src = (acc, rest) \<Longrightarrow> rest \<noteq> []
    \<Longrightarrow> block_complete n
          (if acc = [] then st else Some (chr (last acc), block_end (last acc))) (hd rest)"
proof (induction src arbitrary: st acc rest)
  case Nil
  then show ?case by simp
next
  case (Cons v src)
  show ?case
  proof (cases "block_complete n st v")
    case True
    with Cons.prems show ?thesis by auto
  next
    case False
    obtain acc' rest' where rec: "add_buffer_block n (Some (chr v, block_end v)) src = (acc', rest')"
      by (cases "add_buffer_block n (Some (chr v, block_end v)) src") auto
    with False Cons.prems have acc: "acc = v # acc'" and rest: "rest = rest'"
      by simp_all
    from Cons.IH [OF rec] Cons.prems(2) rest acc show ?thesis
      by (cases "acc' = []") simp_all
  qed
qed

text \<open>
  C2. Under the block-overlap policy with parameter \<open>n\<close> the driver hands the stage a
  prefix of the source and leaves the rest, on any source: a block is produced exactly
  when the source is not empty; every block merged after another one is on the same
  chromosome and starts less than \<open>n\<close> bases past the end of the one before it; and
  when blocks are left over, the first of them is on another chromosome than the block
  seen last or starts \<open>n\<close> bases or more past its end. So between two neighbours on one
  chromosome the accumulation is complete exactly when the gap is at least \<open>n\<close>, and a
  candidate with a smaller gap is merged.
\<close>

theorem block_overlap_emit:
  assumes "add_source n src = (produced, acc, rest)"
  shows "acc @ rest = src
    \<and> (produced \<longleftrightarrow> src \<noteq> [])
    \<and> (\<forall>i. Suc i < length acc \<longrightarrow>
          chr (acc ! Suc i) = chr (acc ! i) \<and> pos (acc ! Suc i) - block_end (acc ! i) < n)
    \<and> (rest \<noteq> [] \<longrightarrow>
          acc \<noteq> []
          \<and> (chr (hd rest) \<noteq> chr (last acc) \<or> pos (hd rest) - block_end (last acc) \<ge> n))
    \<and> (rest \<noteq> [] \<and> chr (hd rest) = chr (last acc) \<longrightarrow>
          pos (hd rest) - block_end (last acc) \<ge> n)"
proof -
  from assms have run: "add_buffer_block n None src = (acc, rest)"
    and prod: "produced \<longleftrightarrow> acc \<noteq> []"
    by (auto simp: add_source_def split: prod.splits)
  have app: "acc @ rest = src"
    using run by (rule add_buffer_block_append)
  have start: "src \<noteq> [] \<longrightarrow> acc \<noteq> []"
    using run by (auto dest: add_buffer_block_start)
  have adj: "\<forall>i. Suc i < length acc \<longrightarrow>
      chr (acc ! Suc i) = chr (acc ! i) \<and> pos (acc ! Suc i) - block_end (acc ! i) < n"
  proof (intro allI impI)
    fix i
    assume i: "Suc i < length acc"
    from add_buffer_block_adjacent [OF run i]
    show "chr (acc ! Suc i) = chr (acc ! i) \<and> pos (acc ! Suc i) - block_end (acc ! i) < n"
      by (simp add: block_complete_def)
  qed
  have stop: "rest \<noteq> [] \<longrightarrow>
      acc \<noteq> []
      \<and> (chr (hd rest) \<noteq> chr (last acc) \<or> pos (hd rest) - block_end (last acc) \<ge> n)"
  proof
    assume r: "rest \<noteq> []"
    with app have "src \<noteq> []"
      by auto
    with start have a: "acc \<noteq> []"
      by simp
    with add_buffer_block_stop [OF run r]
    show "acc \<noteq> []
      \<and> (chr (hd rest) \<noteq> chr (last acc) \<or> pos (hd rest) - block_end (last acc) \<ge> n)"
      by (simp add: block_complete_def)
  qed
  from stop have stop_same: "rest \<noteq> [] \<and> chr (hd rest) = chr (last acc) \<longrightarrow>
      pos (hd rest) - block_end (last acc) \<ge> n"
    by blast
  from app prod start have "acc @ rest = src" "produced \<longleftrightarrow> src \<noteq> []"
    by auto
  with adj stop stop_same show ?thesis
    by blast
qed

text \<open>
  The theorem at the spec's examples (edits at 100, 140 and 300 with \<open>n = 50\<close>; blocks at
  10, 20 and 30 with \<open>n = 5\<close>), at a deletion of 30 bases whose end, not its start, decides
  the gap, and at a change of chromosome, where the accumulation is complete although the
  positions are 10 apart.
\<close>

theorem block_overlap_emit_witness:
  "add_source 50 [snv_block 100, snv_block 140, snv_block 300]
      = (True, [snv_block 100, snv_block 140], [snv_block 300])
   \<and> pos (snv_block 140) - block_end (snv_block 100) = 40
   \<and> pos (snv_block 300) - block_end (snv_block 140) \<ge> 50
   \<and> add_source 5 [snv_block 10, snv_block 20, snv_block 30]
      = (True, [snv_block 10], [snv_block 20, snv_block 30])
   \<and> add_source 5 [snv_block 20, snv_block 30] = (True, [snv_block 20], [snv_block 30])
   \<and> add_source 5 [snv_block 30] = (True, [snv_block 30], [])
   \<and> add_source 50 [span_block ''1'' 100 30, span_block ''1'' 170 1, span_block ''1'' 220 1]
      = (True, [span_block ''1'' 100 30, span_block ''1'' 170 1], [span_block ''1'' 220 1])
   \<and> pos (span_block ''1'' 170 1) - block_end (span_block ''1'' 100 30) = 41
   \<and> add_source 50 [span_block ''1'' 100 1, span_block ''1'' 170 1]
      = (True, [span_block ''1'' 100 1], [span_block ''1'' 170 1])
   \<and> add_source 50 [span_block ''1'' 100 1, span_block ''2'' 110 1]
      = (True, [span_block ''1'' 100 1], [span_block ''2'' 110 1])
   \<and> chr (span_block ''2'' 110 1) \<noteq> chr (span_block ''1'' 100 1)"
proof -
  let ?src = "[snv_block 100, snv_block 140, snv_block 300]"
  have run: "add_source 50 ?src = (True, [snv_block 100, snv_block 140], [snv_block 300])"
    by (simp add: add_source_def block_complete_def block_end_def snv_block_def)
  have gap: "pos (snv_block 140) - block_end (snv_block 100) = 40"
    by (simp add: block_end_def snv_block_def)
  have more: "add_source 5 [snv_block 10, snv_block 20, snv_block 30]
      = (True, [snv_block 10], [snv_block 20, snv_block 30])"
    "add_source 5 [snv_block 20, snv_block 30] = (True, [snv_block 20], [snv_block 30])"
    "add_source 5 [snv_block 30] = (True, [snv_block 30], [])"
    by (simp_all add: add_source_def block_complete_def block_end_def snv_block_def)
  have long: "add_source 50 [span_block ''1'' 100 30, span_block ''1'' 170 1, span_block ''1'' 220 1]
      = (True, [span_block ''1'' 100 30, span_block ''1'' 170 1], [span_block ''1'' 220 1])"
    "pos (span_block ''1'' 170 1) - block_end (span_block ''1'' 100 30) = 41"
    "add_source 50 [span_block ''1'' 100 1, span_block ''1'' 170 1]
      = (True, [span_block ''1'' 100 1], [span_block ''1'' 170 1])"
    by (simp_all add: add_source_def block_complete_def block_end_def span_block_def)
  have other: "add_source 50 [span_block ''1'' 100 1, span_block ''2'' 110 1]
      = (True, [span_block ''1'' 100 1], [span_block ''2'' 110 1])"
    by (simp add: add_source_def block_complete_def block_end_def span_block_def)
  have chrs: "chr (span_block ''2'' 110 1) \<noteq> chr (span_block ''1'' 100 1)"
    by (simp add: span_block_def)
  from block_overlap_emit [OF run] have "pos (snv_block 300) - block_end (snv_block 140) \<ge> 50"
    by (simp add: snv_block_def)
  with run gap more long other chrs show ?thesis
    by simp
qed

end
